theory Spec2Isabelle
  imports Main "HOL-Library.Sublist" "HOL-Library.Char_ord"
begin

section \<open>Strings of the host language\<close>

text \<open>
  Source strings are modelled as lists of 8-bit characters, read as the code units
  U+0000 to U+00FF. All text of the registry (ids, titles, descriptions) and all
  fragment literals of the router lie in the ASCII part of that range.
\<close>

definition startsWith :: "string \<Rightarrow> string \<Rightarrow> bool" where
  "startsWith s p = prefix p s"

text \<open>\<open>s.includes(q)\<close>: \<open>q\<close> occurs in \<open>s\<close> as a contiguous run.\<close>

fun includes_str :: "string \<Rightarrow> string \<Rightarrow> bool" where
  "includes_str [] q = (q = [])"
| "includes_str (c # cs) q = (prefix q (c # cs) \<or> includes_str cs q)"

text \<open>
  \<open>s.replace(p, r)\<close> with a string pattern: the first occurrence of \<open>p\<close> is replaced,
  the rest of \<open>s\<close> is kept; without an occurrence \<open>s\<close> is returned as it is.
\<close>

fun replace :: "string \<Rightarrow> string \<Rightarrow> string \<Rightarrow> string" where
  "replace [] p r = (if p = [] then r else [])"
| "replace (c # cs) p r =
     (if prefix p (c # cs) then r @ drop (length p) (c # cs) else c # replace cs p r)"

text \<open>White space removed by \<open>trim()\<close>: TAB, LF, VT, FF, CR, SP and NBSP.\<close>

definition isWhiteSpace :: "char \<Rightarrow> bool" where
  "isWhiteSpace c = (of_char c \<in> {9, 10, 11, 12, 13, 32, 160 :: nat})"

definition trim :: "string \<Rightarrow> string" where
  "trim s = rev (dropWhile isWhiteSpace (rev (dropWhile isWhiteSpace s)))"

text \<open>
  \<open>toLowerCase()\<close> on the code units below U+0100: A to Z and the capital letters
  U+00C0 to U+00DE (U+00D7, the multiplication sign, apart) move up by 32.
\<close>

definition lowerChar :: "char \<Rightarrow> char" where
  "lowerChar c =
     (let n = of_char c :: nat
      in if (65 \<le> n \<and> n \<le> 90) \<or> (192 \<le> n \<and> n \<le> 222 \<and> n \<noteq> 215)
         then char_of (n + 32) else c)"

definition toLowerCase :: "string \<Rightarrow> string" where
  "toLowerCase s = map lowerChar s"

text \<open>Line terminators, which \<open>.\<close> of a regular expression does not match.\<close>

definition isLineTerminator :: "char \<Rightarrow> bool" where
  "isLineTerminator c = (of_char c \<in> {10, 13 :: nat})"

text \<open>
  \<open>hash.match(/^#\/(.+)$/)\<close>: the whole string is \<open>#/\<close> followed by one or more
  characters other than line terminators; the result is the captured group.
\<close>

definition matchCanonical :: "string \<Rightarrow> string option" where
  "matchCanonical h =
     (if startsWith h ''#/'' \<and> drop 2 h \<noteq> [] \<and> list_all (\<lambda>c. \<not> isLineTerminator c) (drop 2 h)
      then Some (drop 2 h) else None)"

text \<open>
  Reading an array out of range yields \<open>undefined\<close> (\<open>None\<close>); reading a property of
  \<open>undefined\<close> throws a TypeError. The browser throws a SecurityError when
  \<open>history.pushState\<close> is given a URL outside the origin of the document.
\<close>

datatype error = TypeError | SecurityError

definition at_index :: "'a list \<Rightarrow> nat \<Rightarrow> 'a option" where
  "at_index xs i = (if i < length xs then Some (xs ! i) else None)"

definition getProp :: "('a \<Rightarrow> 'b) \<Rightarrow> 'a option \<Rightarrow> error + 'b" where
  "getProp f v = (case v of None \<Rightarrow> Inl TypeError | Some x \<Rightarrow> Inr (f x))"

section \<open>Document registry\<close>

record DocPage =
  id' :: string
  title :: string
  description :: string
  content :: string

text \<open>
  The registry of \<open>docs/index.ts\<close>. The content of a page is the raw text of an
  imported markdown module; \<open>raw\<close> maps the module path to that text.
\<close>

definition docs :: "(string \<Rightarrow> string) \<Rightarrow> DocPage list" where
  "docs raw =
    [ \<lparr>id' = ''introduction'', title = ''Introduction'',
       description = ''What is Picorules and why it exists'',
       content = raw ''./01-introduction.md''\<rparr>,
      \<lparr>id' = ''tutorial'', title = ''Tutorial'',
       description = ''Step-by-step guide to writing your first ruleblocks'',
       content = raw ''./02-tutorial.md''\<rparr>,
      \<lparr>id' = ''language-reference'', title = ''Language Reference'',
       description = ''Complete syntax specification for functional and conditional statements'',
       content = raw ''./03-language-reference.md''\<rparr>,
      \<lparr>id' = ''eadv-model'', title = ''EADV Model'',
       description = ''Understanding the Entity-Attribute-Date-Value data structure'',
       content = raw ''./04-eadv-model.md''\<rparr>,
      \<lparr>id' = ''functions-reference'', title = ''Functions Reference'',
       description = ''Complete reference of all available functions and operators'',
       content = raw ''./05-functions-reference.md''\<rparr>,
      \<lparr>id' = ''jinja2-templating'', title = ''Jinja2 Templating'',
       description = ''Creating dashboard templates with Jinja2 syntax'',
       content = raw ''./06-jinja2-templating.md''\<rparr>,
      \<lparr>id' = ''examples'', title = ''Examples & Cookbook'',
       description = ''Real-world clinical patterns and complete ruleblock examples'',
       content = raw ''./07-examples.md''\<rparr>,
      \<lparr>id' = ''developers'', title = ''Developers'',
       description = ''Core team, contributing guidelines, and project architecture'',
       content = raw ''./08-developers.md''\<rparr> ]"

text \<open>\<open>docs.find((d) => d.id === docId)\<close>, the lookup both modules use.\<close>

definition findById :: "DocPage list \<Rightarrow> string \<Rightarrow> DocPage option" where
  "findById ds i = find (\<lambda>d. id' d = i) ds"

definition ids :: "DocPage list \<Rightarrow> string set" where
  "ids ds = set (map id' ds)"

section \<open>Hash router\<close>

datatype Route = Landing | Doc string

text \<open>
  The browser as the router sees it. \<open>hash\<close> is what \<open>window.location.hash\<close> reads;
  \<open>past\<close> holds the session-history entries behind the current one, most recent
  first, each a triple of path, query and fragment; \<open>queued\<close> counts the
  \<open>hashchange\<close> events fired and not yet delivered; \<open>route\<close> is the state of the hook.
  \<open>resolve\<close> is the URL resolution of the browser for a reference that starts with
  \<open>//\<close>, which names a host: the path the reference resolves to when it stays in the
  origin of the document, \<open>None\<close> when it leaves the origin or does not parse.
\<close>

record browser =
  pathname :: string
  search :: string
  hash :: string
  past :: "(string \<times> string \<times> string) list"
  queued :: nat
  route :: Route
  resolve :: "string \<Rightarrow> string option"

definition current :: "browser \<Rightarrow> string \<times> string \<times> string" where
  "current b = (pathname b, search b, hash b)"

text \<open>
  \<open>window.location.hash = v\<close>: one leading \<open>#\<close> of \<open>v\<close> is dropped and the rest
  becomes the fragment, kept verbatim (percent-encoding is not modelled). When the
  fragment changes, the browser navigates to it: a new history entry is pushed and a
  \<open>hashchange\<close> event is queued.
\<close>

definition setHash :: "string \<Rightarrow> browser \<Rightarrow> browser" where
  "setHash v b =
     (let f = (if startsWith v ''#'' then drop 1 v else v);
          h = (if f = [] then [] else CHR ''#'' # f)
      in if h = hash b then b
         else b\<lparr>hash := h, past := current b # past b, queued := queued b + 1\<rparr>)"

text \<open>
  \<open>history.pushState(null, '', url)\<close> with the path of the document as \<open>url\<close>. The
  path is read as a relative reference. One that starts with a single \<open>/\<close> names that
  path in the origin of the document; one that starts with \<open>//\<close> names a host, and
  \<open>pushState\<close> throws when it leaves the origin. Without a throw the current entry is
  kept in the history, the new entry has the path, no query and no fragment, and no
  event is fired.
\<close>

definition pushState :: "string \<Rightarrow> browser \<Rightarrow> error + browser" where
  "pushState url b =
     (if startsWith url ''//''
      then (case resolve b url of
              None \<Rightarrow> Inl SecurityError
            | Some p \<Rightarrow>
                Inr (b\<lparr>pathname := p, search := [], hash := [], past := current b # past b\<rparr>))
      else Inr (b\<lparr>pathname := url, search := [], hash := [], past := current b # past b\<rparr>))"

definition parseHash :: "DocPage list \<Rightarrow> browser \<Rightarrow> Route \<times> browser" where
  "parseHash ds b =
     (let h = hash b in
      if h = [] \<or> h = ''#'' \<or> h = ''#/'' then (Landing, b)
      else
        let legacy =
              (if startsWith h ''#doc-''
               then (let docId = replace h ''#doc-'' [] in
                     case findById ds docId of
                       Some validDoc \<Rightarrow> Some docId
                     | None \<Rightarrow> None)
               else None)
        in case legacy of
             Some docId \<Rightarrow> (Doc docId, setHash (''#/'' @ docId) b)
           | None \<Rightarrow>
               (case matchCanonical h of
                  Some docId \<Rightarrow>
                    (case findById ds docId of
                       Some validDoc \<Rightarrow> (Doc docId, b)
                     | None \<Rightarrow> (Landing, b))
                | None \<Rightarrow> (Landing, b)))"

text \<open>\<open>useState(parseHash)\<close>: the first route is parsed from the fragment at start.\<close>

definition initRouter :: "DocPage list \<Rightarrow> browser \<Rightarrow> browser" where
  "initRouter ds b = (case parseHash ds b of (r, b') \<Rightarrow> b'\<lparr>route := r\<rparr>)"

definition handleHashChange :: "DocPage list \<Rightarrow> browser \<Rightarrow> browser" where
  "handleHashChange ds b = (case parseHash ds b of (r, b') \<Rightarrow> b'\<lparr>route := r\<rparr>)"

definition navigate :: "Route \<Rightarrow> browser \<Rightarrow> error + browser" where
  "navigate newRoute b =
     (case newRoute of
        Landing \<Rightarrow>
          (case pushState (pathname b) b of
             Inl e \<Rightarrow> Inl e
           | Inr b' \<Rightarrow> Inr (b'\<lparr>route := newRoute\<rparr>))
      | Doc docId \<Rightarrow> Inr (setHash (''#/'' @ docId) b))"

text \<open>
  What can happen to the router: a call of \<open>navigate\<close>; a change of the fragment from
  outside (a link, the address bar, back or forward), which leaves the fragment \<open>h\<close>
  and the history \<open>p\<close> and queues a \<open>hashchange\<close> event; the delivery of one queued
  event to the listener. A call of \<open>navigate\<close> that throws leaves the router as it is.
\<close>

datatype event = Navigate Route | FragmentChange string "(string \<times> string \<times> string) list" | Deliver

fun step :: "DocPage list \<Rightarrow> browser \<Rightarrow> event \<Rightarrow> browser" where
  "step ds b (Navigate r) = (case navigate r b of Inl e \<Rightarrow> b | Inr b' \<Rightarrow> b')"
| "step ds b (FragmentChange h p) = b\<lparr>hash := h, past := p, queued := queued b + 1\<rparr>"
| "step ds b Deliver =
     (if queued b = 0 then b else handleHashChange ds (b\<lparr>queued := queued b - 1\<rparr>))"

definition run :: "DocPage list \<Rightarrow> browser \<Rightarrow> event list \<Rightarrow> browser" where
  "run ds b es = foldl (step ds) b es"

definition validRoute :: "DocPage list \<Rightarrow> Route \<Rightarrow> bool" where
  "validRoute ds r = (case r of Landing \<Rightarrow> True | Doc docId \<Rightarrow> docId \<in> ids ds)"

section \<open>Application state\<close>

text \<open>
  The state of the \<open>App\<close> component together with the two pieces of the page it
  writes: the key-value store \<open>localStorage\<close> and the class list of the root element.
  At run time \<open>theme\<close> holds whatever string it was given.
\<close>

record app =
  selectedDocId :: string
  query :: string
  theme :: string
  localStorage :: "string \<rightharpoonup> string"
  rootClasses :: "string set"

text \<open>
  The initializer of the \<open>theme\<close> state. \<open>getItem\<close> returns \<open>null\<close> (\<open>None\<close>) for a
  missing key; \<open>if (savedTheme)\<close> holds for every string but the empty one.
  \<open>prefersDark\<close> is the answer of \<open>matchMedia('(prefers-color-scheme: dark)')\<close>.
\<close>

definition initTheme :: "(string \<rightharpoonup> string) \<Rightarrow> bool \<Rightarrow> string" where
  "initTheme store prefersDark =
     (let savedTheme = store ''theme'' in
      case savedTheme of
        Some t \<Rightarrow> if t \<noteq> [] then t else (if prefersDark then ''dark'' else ''light'')
      | None \<Rightarrow> (if prefersDark then ''dark'' else ''light''))"

definition filteredDocs :: "DocPage list \<Rightarrow> string \<Rightarrow> DocPage list" where
  "filteredDocs ds qry =
     (let q = toLowerCase (trim qry) in
      if q = [] then ds
      else filter (\<lambda>doc. includes_str (toLowerCase (title doc)) q
                        \<or> includes_str (toLowerCase (description doc)) q) ds)"

text \<open>The effect that repairs the selection, run once.\<close>

definition selectionEffect :: "DocPage list \<Rightarrow> app \<Rightarrow> error + app" where
  "selectionEffect ds s =
     (let fd = filteredDocs ds (query s) in
      if length fd = 0 then Inr s
      else
        let stillVisible = list_ex (\<lambda>doc. id' doc = selectedDocId s) fd in
        if \<not> stillVisible
        then (case getProp id' (at_index fd 0) of
                Inl e \<Rightarrow> Inl e
              | Inr i \<Rightarrow> Inr (s\<lparr>selectedDocId := i\<rparr>))
        else Inr s)"

text \<open>The effect that applies the theme to the page and stores it.\<close>

definition themeEffect :: "app \<Rightarrow> app" where
  "themeEffect s =
     s\<lparr>rootClasses := (if theme s = ''dark'' then insert ''dark'' (rootClasses s)
                        else rootClasses s - {''dark''}),
       localStorage := (localStorage s)(''theme'' \<mapsto> theme s)\<rparr>"

text \<open>
  \<open>toggleTheme\<close>: the state update, then the theme effect, which runs because the
  update always changes \<open>theme\<close>.
\<close>

definition toggleTheme :: "app \<Rightarrow> app" where
  "toggleTheme s = themeEffect (s\<lparr>theme := (if theme s = ''light'' then ''dark'' else ''light'')\<rparr>)"

definition activeDoc :: "DocPage list \<Rightarrow> app \<Rightarrow> DocPage option" where
  "activeDoc ds s =
     (case findById ds (selectedDocId s) of
        Some d \<Rightarrow> Some d
      | None \<Rightarrow> at_index ds 0)"

text \<open>
  The selection effect depends on the selection it writes, so it runs again after it
  has changed it, until it leaves the selection as it is.
\<close>

function settle :: "DocPage list \<Rightarrow> app \<Rightarrow> error + app" where
  "settle ds s =
     (case selectionEffect ds s of
        Inl e \<Rightarrow> Inl e
      | Inr s' \<Rightarrow> if selectedDocId s' = selectedDocId s then Inr s' else settle ds s')"
  by pat_completeness auto
termination
proof (relation "measure (\<lambda>(ds, s). if selectionEffect ds s = Inr s then 0 else 1)")
  show "wf (measure (\<lambda>(ds, s). if selectionEffect ds s = Inr s then 0 else (1::nat)))"
    by simp
next
  fix ds :: "DocPage list" and s s' :: app
  assume eff: "selectionEffect ds s = Inr s'" and changed: "selectedDocId s' \<noteq> selectedDocId s"
  define fd where "fd = filteredDocs ds (query s)"
  from eff changed have ne: "fd \<noteq> []"
    by (auto simp: selectionEffect_def fd_def Let_def split: if_splits)
  then obtain d rest where fd: "fd = d # rest"
    by (cases fd) auto
  from eff changed have s': "s' = s\<lparr>selectedDocId := id' d\<rparr>"
    by (auto simp: selectionEffect_def fd_def [symmetric] fd Let_def getProp_def at_index_def
        split: if_splits)
  have "selectionEffect ds s' = Inr s'"
    by (simp add: selectionEffect_def s' fd_def [symmetric] fd Let_def)
  moreover from eff changed have "selectionEffect ds s \<noteq> Inr s"
    by auto
  ultimately show "((ds, s'), (ds, s)) \<in> measure (\<lambda>(ds, s). if selectionEffect ds s = Inr s then 0 else (1::nat))"
    by simp
qed

declare settle.simps [simp del]

text \<open>\<open>setQuery(q)\<close> from the search box, followed by the effects it triggers.\<close>

definition setQuery :: "DocPage list \<Rightarrow> string \<Rightarrow> app \<Rightarrow> error + app" where
  "setQuery ds q s = settle ds (s\<lparr>query := q\<rparr>)"

text \<open>
  The first render of \<open>App\<close> and the effects of the mount. \<open>store\<close>, \<open>prefersDark\<close>
  and \<open>classes\<close> are what the page holds before.
\<close>

definition startup :: "DocPage list \<Rightarrow> (string \<rightharpoonup> string) \<Rightarrow> bool \<Rightarrow> string set \<Rightarrow> error + app" where
  "startup ds store prefersDark classes =
     (case getProp id' (at_index ds 0) of
        Inl e \<Rightarrow> Inl e
      | Inr i \<Rightarrow>
          (case settle ds \<lparr>selectedDocId = i, query = [], theme = initTheme store prefersDark,
                            localStorage = store, rootClasses = classes\<rparr> of
             Inl e \<Rightarrow> Inl e
           | Inr s \<Rightarrow> Inr (themeEffect s)))"

text \<open>
  What the user can do to the page: type into the search box, click an entry of the
  navigation list (\<open>setSelectedDocId\<close>, followed by the selection effect), and click
  the theme button.
\<close>

datatype action = SetQuery string | Select string | ToggleTheme

fun act :: "DocPage list \<Rightarrow> app \<Rightarrow> action \<Rightarrow> error + app" where
  "act ds s (SetQuery q) = setQuery ds q s"
| "act ds s (Select i) = settle ds (s\<lparr>selectedDocId := i\<rparr>)"
| "act ds s ToggleTheme = Inr (toggleTheme s)"

fun runApp :: "DocPage list \<Rightarrow> app \<Rightarrow> action list \<Rightarrow> error + app" where
  "runApp ds s [] = Inr s"
| "runApp ds s (a # as) = (case act ds s a of Inl e \<Rightarrow> Inl e | Inr s' \<Rightarrow> runApp ds s' as)"

section \<open>Sample inputs and predicates of the specification\<close>

text \<open>
  A registry with empty page contents; a browser showing a document; the same
  browser on a path that starts with \<open>//\<close> and names another host.
\<close>

definition docs0 :: "DocPage list" where
  "docs0 = docs (\<lambda>path. [])"

definition browser0 :: browser where
  "browser0 = \<lparr>pathname = ''/picorules-docs/'', search = ''?v=1'', hash = ''#/tutorial'',
                past = [(''/picorules-docs/'', [], [])], queued = 0, route = Doc ''tutorial'',
                resolve = (\<lambda>url. None)\<rparr>"

definition browser1 :: browser where
  "browser1 = \<lparr>pathname = ''//cdn.example/docs/'', search = [], hash = ''#/tutorial'',
                past = [], queued = 0, route = Doc ''tutorial'', resolve = (\<lambda>url. None)\<rparr>"

text \<open>An operation replaces the history entry when it leaves the entries behind it as they are.\<close>

definition replacesHistory :: "browser \<Rightarrow> browser \<Rightarrow> bool" where
  "replacesHistory b b' = (past b' = past b)"

text \<open>
  The outcome the specification gives to \<open>navigateTo(Landing)\<close> from the browser \<open>b\<close>:
  the call returns, the fragment is empty, the history entry was replaced, no
  \<open>hashchange\<close> event was fired and the route is the landing route.
\<close>

definition landingByReplace :: "browser \<Rightarrow> error + browser \<Rightarrow> bool" where
  "landingByReplace b r =
     (case r of
        Inl e \<Rightarrow> False
      | Inr b' \<Rightarrow> hash b' = [] \<and> replacesHistory b b' \<and> queued b' = queued b
                 \<and> route b' = Landing)"

text \<open>
  Every id of the registry is a segment the canonical pattern accepts: not empty and
  free of line terminators.
\<close>

definition routable :: "DocPage list \<Rightarrow> bool" where
  "routable ds = list_all (\<lambda>d. id' d \<noteq> [] \<and> list_all (\<lambda>c. \<not> isLineTerminator c) (id' d)) ds"

text \<open>\<open>s\<close> contains \<open>q\<close>, compared without regard to case.\<close>

definition containsCI :: "string \<Rightarrow> string \<Rightarrow> bool" where
  "containsCI s q = includes_str (toLowerCase s) (toLowerCase q)"

definition containsQuery :: "string \<Rightarrow> DocPage \<Rightarrow> bool" where
  "containsQuery q doc = (containsCI (title doc) q \<or> containsCI (description doc) q)"

text \<open>An application state, and a store that holds the empty string as the theme.\<close>

definition app0 :: app where
  "app0 = \<lparr>selectedDocId = ''introduction'', query = [], theme = ''light'',
            localStorage = Map.empty, rootClasses = {}\<rparr>"

definition store0 :: "string \<rightharpoonup> string" where
  "store0 = [''theme'' \<mapsto> []]"

section \<open>Registry lookup and fragment parsing\<close>

lemma findById_Some: "findById ds i = Some d \<Longrightarrow> id' d = i \<and> d \<in> set ds"
  unfolding findById_def by (auto simp: find_Some_iff)

lemma findById_None: "findById ds i = None \<longleftrightarrow> i \<notin> ids ds"
  unfolding findById_def ids_def by (auto simp: find_None_iff)

lemma findById_ids: "findById ds i = Some d \<Longrightarrow> i \<in> ids ds"
  using findById_None [of ds i] by auto

lemma ids_findById: "i \<in> ids ds \<Longrightarrow> \<exists>d. findById ds i = Some d"
  using findById_None [of ds i] by auto

lemma replace_prefix: "replace (p @ s) p r = r @ s"
proof (cases "p @ s")
  case Nil
  then show ?thesis by simp
next
  case (Cons a list)
  then have "prefix p (a # list)" and "drop (length p) (a # list) = s"
    by (metis prefixI, metis append_eq_conv_conj)
  with Cons show ?thesis by simp
qed

lemma ids_docs:
  "ids (docs raw) = {''introduction'', ''tutorial'', ''language-reference'', ''eadv-model'',
     ''functions-reference'', ''jinja2-templating'', ''examples'', ''developers''}"
  by (simp add: ids_def docs_def)

lemma routable_docs: "routable (docs raw)"
  by (simp add: routable_def docs_def isLineTerminator_def)

lemma routable_id: "routable ds \<Longrightarrow> i \<in> ids ds \<Longrightarrow> matchCanonical (''#/'' @ i) = Some i"
  by (auto simp: routable_def ids_def list_all_iff matchCanonical_def startsWith_def)

lemma matchCanonical_Some: "matchCanonical h = Some i \<Longrightarrow> h = ''#/'' @ i"
  by (auto simp: matchCanonical_def startsWith_def prefix_def split: if_splits)

lemma matchCanonical_doc: "matchCanonical (''#doc-'' @ w) = None"
  by (simp add: matchCanonical_def startsWith_def)

lemma parseHash_valid: "validRoute ds (fst (parseHash ds b))"
  unfolding parseHash_def validRoute_def Let_def
  by (auto split: option.splits Route.splits dest: findById_ids)

lemma parseHash_legacy_valid:
  assumes "v \<in> ids ds"
  shows "parseHash ds (b\<lparr>hash := ''#doc-'' @ v\<rparr>) = (Doc v, setHash (''#/'' @ v) (b\<lparr>hash := ''#doc-'' @ v\<rparr>))"
proof -
  from assms obtain d where "findById ds v = Some d"
    by (auto dest: ids_findById)
  moreover have "replace (''#doc-'' @ v) ''#doc-'' [] = v"
    using replace_prefix [of "''#doc-''" v "[]"] by simp
  ultimately show ?thesis
    by (simp add: parseHash_def startsWith_def del: replace.simps)
qed

lemma parseHash_legacy_invalid:
  assumes "w \<notin> ids ds"
  shows "parseHash ds (b\<lparr>hash := ''#doc-'' @ w\<rparr>) = (Landing, b\<lparr>hash := ''#doc-'' @ w\<rparr>)"
proof -
  from assms have "findById ds w = None"
    by (simp add: findById_None)
  moreover have "replace (''#doc-'' @ w) ''#doc-'' [] = w"
    using replace_prefix [of "''#doc-''" w "[]"] by simp
  moreover have "matchCanonical (''#doc-'' @ w) = None"
    by (rule matchCanonical_doc)
  ultimately show ?thesis
    by (simp add: parseHash_def startsWith_def del: replace.simps)
qed

lemma parseHash_canonical_valid:
  assumes "routable ds" and "v \<in> ids ds"
  shows "parseHash ds (b\<lparr>hash := ''#/'' @ v\<rparr>) = (Doc v, b\<lparr>hash := ''#/'' @ v\<rparr>)"
proof -
  from assms obtain d where "findById ds v = Some d"
    by (auto dest: ids_findById)
  moreover from assms have "matchCanonical (''#/'' @ v) = Some v"
    by (rule routable_id)
  moreover from assms have "v \<noteq> []"
    by (auto simp: routable_def ids_def list_all_iff)
  ultimately show ?thesis
    by (simp add: parseHash_def startsWith_def)
qed

lemma parseHash_canonical_invalid:
  assumes "w \<notin> ids ds"
  shows "parseHash ds (b\<lparr>hash := ''#/'' @ w\<rparr>) = (Landing, b\<lparr>hash := ''#/'' @ w\<rparr>)"
proof (cases "matchCanonical (''#/'' @ w)")
  case None
  then show ?thesis
    by (simp add: parseHash_def startsWith_def Let_def)
next
  case (Some i)
  then have "i = w"
    by (auto dest: matchCanonical_Some)
  with assms have "findById ds i = None"
    by (simp add: findById_None)
  with Some show ?thesis
    by (simp add: parseHash_def startsWith_def Let_def)
qed

lemma parseHash_other:
  assumes "\<not> startsWith h ''#/''" and "\<not> (\<exists>v\<in>ids ds. h = ''#doc-'' @ v)"
  shows "parseHash ds (b\<lparr>hash := h\<rparr>) = (Landing, b\<lparr>hash := h\<rparr>)"
proof -
  from assms(1) have m: "matchCanonical h = None"
    by (simp add: matchCanonical_def)
  show ?thesis
  proof (cases "startsWith h ''#doc-''")
    case False
    with m show ?thesis
      by (simp add: parseHash_def)
  next
    case True
    then obtain w where h: "h = ''#doc-'' @ w"
      by (auto simp: startsWith_def prefix_def)
    with assms(2) have "w \<notin> ids ds"
      by auto
    then show ?thesis
      unfolding h by (rule parseHash_legacy_invalid)
  qed
qed

lemma step_valid: "validRoute ds (route b) \<Longrightarrow> validRoute ds (route (step ds b e))"
proof (cases e)
  case (Navigate r)
  assume "validRoute ds (route b)"
  with Navigate show ?thesis
    by (cases r)
      (auto simp: navigate_def pushState_def validRoute_def setHash_def Let_def
        split: sum.splits option.splits if_splits)
next
  case (FragmentChange h p)
  assume "validRoute ds (route b)"
  with FragmentChange show ?thesis
    by simp
next
  case Deliver
  assume "validRoute ds (route b)"
  moreover have "validRoute ds (route (handleHashChange ds c))" for c
    using parseHash_valid [of ds c] by (simp add: handleHashChange_def case_prod_beta)
  ultimately show ?thesis
    using Deliver by simp
qed

lemma run_valid: "validRoute ds (route b) \<Longrightarrow> validRoute ds (route (run ds b es))"
  unfolding run_def by (induction es arbitrary: b) (simp_all add: step_valid)

lemma initRouter_valid: "validRoute ds (route (initRouter ds b))"
  using parseHash_valid [of ds b] by (simp add: initRouter_def case_prod_beta)

text \<open>
  Claim C1. Whatever sequence of \<open>navigate\<close> calls, outside fragment changes and
  delivered \<open>hashchange\<close> events follows the start of the router, the route it holds
  is the landing route or a document route whose id is in the registry; \<open>parseHash\<close>
  builds a document route only from an id of the registry, and a fragment that names
  an id outside the registry, in canonical or legacy form, resolves to the landing route.
\<close>

theorem route_validity:
  "validRoute ds (route (run ds (initRouter ds b) es))
   \<and> (\<forall>docId. fst (parseHash ds b) = Doc docId \<longrightarrow> docId \<in> ids ds)
   \<and> (w \<notin> ids ds \<longrightarrow>
        fst (parseHash ds (b\<lparr>hash := ''#/'' @ w\<rparr>)) = Landing
      \<and> fst (parseHash ds (b\<lparr>hash := ''#doc-'' @ w\<rparr>)) = Landing)"
proof (intro conjI allI impI)
  show "validRoute ds (route (run ds (initRouter ds b) es))"
    by (rule run_valid) (rule initRouter_valid)
next
  fix docId assume "fst (parseHash ds b) = Doc docId"
  with parseHash_valid [of ds b] show "docId \<in> ids ds"
    by (simp add: validRoute_def)
next
  assume "w \<notin> ids ds"
  then show "fst (parseHash ds (b\<lparr>hash := ''#/'' @ w\<rparr>)) = Landing"
    using parseHash_canonical_invalid [of w ds b] by simp
next
  assume "w \<notin> ids ds"
  then show "fst (parseHash ds (b\<lparr>hash := ''#doc-'' @ w\<rparr>)) = Landing"
    using parseHash_legacy_invalid [of w ds b] by simp
qed

theorem route_validity_witness:
  "validRoute docs0 (route (run docs0 (initRouter docs0 browser0)
      [Navigate (Doc ''nope''), Deliver, FragmentChange ''#doc-examples'' [], Deliver, Deliver]))
   \<and> fst (parseHash docs0 browser0) = Doc ''tutorial'' \<and> ''tutorial'' \<in> ids docs0
   \<and> ''nope'' \<notin> ids docs0
   \<and> fst (parseHash docs0 (browser0\<lparr>hash := ''#/nope''\<rparr>)) = Landing
   \<and> fst (parseHash docs0 (browser0\<lparr>hash := ''#doc-nope''\<rparr>)) = Landing"
proof -
  have a: "''nope'' \<notin> ids docs0"
    by (simp add: docs0_def ids_docs)
  have b: "fst (parseHash docs0 browser0) = Doc ''tutorial''"
    by (simp add: docs0_def browser0_def parseHash_def docs_def startsWith_def findById_def
        matchCanonical_def isLineTerminator_def)
  from a b route_validity [of docs0 browser0
      "[Navigate (Doc ''nope''), Deliver, FragmentChange ''#doc-examples'' [], Deliver, Deliver]"
      "''nope''"]
  show ?thesis
    by simp
qed

section \<open>Fragment grammar, legacy rewrite and navigation\<close>

lemma parseHash_bare:
  "h \<in> {[], ''#'', ''#/''} \<Longrightarrow> parseHash ds (b\<lparr>hash := h\<rparr>) = (Landing, b\<lparr>hash := h\<rparr>)"
  by (auto simp: parseHash_def)

lemma setHash_canonical:
  "setHash (''#/'' @ v) b =
     (if hash b = ''#/'' @ v then b
      else b\<lparr>hash := ''#/'' @ v, past := current b # past b, queued := queued b + 1\<rparr>)"
  by (simp add: setHash_def startsWith_def)

text \<open>
  Claim C2. \<open>parseHash\<close> returns the landing route for the empty fragment, \<open>#\<close> and
  \<open>#/\<close>; the document route for \<open>#/\<close> followed by an id of the registry of the
  program; the landing route for \<open>#/\<close> followed by anything that is no id of the
  registry; and the landing route for every fragment of another shape, the legacy
  fragments \<open>#doc-\<close> with an id of the registry (claim C3) apart. The landing cases hold
  for any registry; for any registry the document case needs what \<open>routable\<close> says
  (lemma \<open>parseHash_canonical_valid\<close>), which the registry of the program satisfies.
\<close>

theorem parseHash_fragments:
  "(h \<in> {[], ''#'', ''#/''} \<longrightarrow> fst (parseHash ds (b\<lparr>hash := h\<rparr>)) = Landing)
   \<and> (seg \<in> ids (docs raw) \<longrightarrow> fst (parseHash (docs raw) (b\<lparr>hash := ''#/'' @ seg\<rparr>)) = Doc seg)
   \<and> (seg \<notin> ids ds \<longrightarrow> fst (parseHash ds (b\<lparr>hash := ''#/'' @ seg\<rparr>)) = Landing)
   \<and> (h \<notin> {[], ''#'', ''#/''} \<and> \<not> startsWith h ''#/'' \<and> \<not> (\<exists>v\<in>ids ds. h = ''#doc-'' @ v)
        \<longrightarrow> fst (parseHash ds (b\<lparr>hash := h\<rparr>)) = Landing)"
proof (intro conjI impI)
  assume "h \<in> {[], ''#'', ''#/''}"
  then show "fst (parseHash ds (b\<lparr>hash := h\<rparr>)) = Landing"
    using parseHash_bare [of h ds b] by simp
next
  assume "seg \<in> ids (docs raw)"
  then show "fst (parseHash (docs raw) (b\<lparr>hash := ''#/'' @ seg\<rparr>)) = Doc seg"
    using parseHash_canonical_valid [OF routable_docs, of seg raw b] by simp
next
  assume "seg \<notin> ids ds"
  then show "fst (parseHash ds (b\<lparr>hash := ''#/'' @ seg\<rparr>)) = Landing"
    using parseHash_canonical_invalid [of seg ds b] by simp
next
  assume "h \<notin> {[], ''#'', ''#/''} \<and> \<not> startsWith h ''#/'' \<and> \<not> (\<exists>v\<in>ids ds. h = ''#doc-'' @ v)"
  then show "fst (parseHash ds (b\<lparr>hash := h\<rparr>)) = Landing"
    using parseHash_other [of h ds b] by simp
qed

theorem parseHash_fragments_witness:
  "fst (parseHash docs0 (browser0\<lparr>hash := ''#''\<rparr>)) = Landing
   \<and> ''examples'' \<in> ids docs0
   \<and> fst (parseHash docs0 (browser0\<lparr>hash := ''#/examples''\<rparr>)) = Doc ''examples''"
proof -
  have "''examples'' \<in> ids (docs (\<lambda>path. []))"
    by (simp add: ids_docs)
  with parseHash_fragments [of "''#''" docs0 browser0 "''examples''" "\<lambda>path. []"]
  show ?thesis
    by (simp add: docs0_def)
qed

text \<open>
  Claim C3. For an id \<open>v\<close> of the registry of the program, parsing \<open>#doc-v\<close>
  gives the document route of \<open>v\<close> and sets the fragment to \<open>#/v\<close>, which fires one \<open>hashchange\<close> event;
  parsing again with that fragment gives the same route and leaves the browser as it
  is, since \<open>#/v\<close> does not start with \<open>#doc-\<close>. For a \<open>w\<close> that is no id of the
  registry, parsing \<open>#doc-w\<close> gives the landing route and leaves the browser as it is.
\<close>

theorem legacy_rewrite:
  "(v \<in> ids (docs raw) \<longrightarrow>
      parseHash (docs raw) (b\<lparr>hash := ''#doc-'' @ v\<rparr>)
        = (Doc v, b\<lparr>past := (pathname b, search b, ''#doc-'' @ v) # past b,
                    queued := queued b + 1, hash := ''#/'' @ v\<rparr>)
    \<and> parseHash (docs raw) (b\<lparr>past := (pathname b, search b, ''#doc-'' @ v) # past b,
                    queued := queued b + 1, hash := ''#/'' @ v\<rparr>)
        = (Doc v, b\<lparr>past := (pathname b, search b, ''#doc-'' @ v) # past b,
                    queued := queued b + 1, hash := ''#/'' @ v\<rparr>)
    \<and> \<not> startsWith (''#/'' @ v) ''#doc-'')
   \<and> (w \<notin> ids ds \<longrightarrow>
        parseHash ds (b\<lparr>hash := ''#doc-'' @ w\<rparr>) = (Landing, b\<lparr>hash := ''#doc-'' @ w\<rparr>))"
proof (intro conjI impI)
  assume v: "v \<in> ids (docs raw)"
  let ?b = "b\<lparr>past := (pathname b, search b, ''#doc-'' @ v) # past b, queued := queued b + 1\<rparr>"
  have "setHash (''#/'' @ v) (b\<lparr>hash := ''#doc-'' @ v\<rparr>) = ?b\<lparr>hash := ''#/'' @ v\<rparr>"
    using setHash_canonical [of v "b\<lparr>hash := ''#doc-'' @ v\<rparr>"] by (simp add: current_def)
  with parseHash_legacy_valid [OF v, of b]
  show "parseHash (docs raw) (b\<lparr>hash := ''#doc-'' @ v\<rparr>)
        = (Doc v, b\<lparr>past := (pathname b, search b, ''#doc-'' @ v) # past b,
                    queued := queued b + 1, hash := ''#/'' @ v\<rparr>)"
    by simp
  from parseHash_canonical_valid [OF routable_docs v, of ?b]
  show "parseHash (docs raw) (b\<lparr>past := (pathname b, search b, ''#doc-'' @ v) # past b,
                    queued := queued b + 1, hash := ''#/'' @ v\<rparr>)
        = (Doc v, b\<lparr>past := (pathname b, search b, ''#doc-'' @ v) # past b,
                    queued := queued b + 1, hash := ''#/'' @ v\<rparr>)"
    by simp
  show "\<not> startsWith (''#/'' @ v) ''#doc-''"
    by (simp add: startsWith_def)
next
  assume "w \<notin> ids ds"
  then show "parseHash ds (b\<lparr>hash := ''#doc-'' @ w\<rparr>) = (Landing, b\<lparr>hash := ''#doc-'' @ w\<rparr>)"
    by (rule parseHash_legacy_invalid)
qed

theorem legacy_rewrite_witness:
  "''developers'' \<in> ids docs0
   \<and> fst (parseHash docs0 (browser0\<lparr>hash := ''#doc-developers''\<rparr>)) = Doc ''developers''
   \<and> hash (snd (parseHash docs0 (browser0\<lparr>hash := ''#doc-developers''\<rparr>))) = ''#/developers''
   \<and> parseHash docs0 (snd (parseHash docs0 (browser0\<lparr>hash := ''#doc-developers''\<rparr>)))
       = (Doc ''developers'', snd (parseHash docs0 (browser0\<lparr>hash := ''#doc-developers''\<rparr>)))
   \<and> ''devs'' \<notin> ids docs0
   \<and> parseHash docs0 (browser0\<lparr>hash := ''#doc-devs''\<rparr>) = (Landing, browser0\<lparr>hash := ''#doc-devs''\<rparr>)"
proof -
  have "''developers'' \<in> ids (docs (\<lambda>path. []))" and "''devs'' \<notin> ids docs0"
    by (simp_all add: ids_docs docs0_def)
  with legacy_rewrite [of "''developers''" "\<lambda>path. []" browser0 "''devs''" docs0]
  show ?thesis
    by (simp add: docs0_def)
qed

text \<open>
  Claim C4, as the code has it. When the path of the document does not start with
  \<open>//\<close>, \<open>navigate\<close> with the landing route returns; it leaves the path, drops the
  query and the fragment, pushes a new history entry on top of the entry that was
  current, queues no \<open>hashchange\<close> event, and sets the route to the landing route in
  the same call.
\<close>

theorem navigate_landing:
  "\<not> startsWith (pathname b) ''//'' \<longrightarrow>
     navigate Landing b =
       Inr (b\<lparr>search := [], hash := [], past := current b # past b, route := Landing\<rparr>)
     \<and> (\<exists>b'. navigate Landing b = Inr b'
           \<and> pathname b' = pathname b
           \<and> hash b' = []
           \<and> past b' = (pathname b, search b, hash b) # past b
           \<and> queued b' = queued b
           \<and> route b' = Landing)"
  by (simp add: navigate_def pushState_def current_def)

theorem navigate_landing_witness:
  "\<not> startsWith (pathname browser0) ''//''
   \<and> navigate Landing browser0 =
       Inr (browser0\<lparr>search := [], hash := [],
              past := [(''/picorules-docs/'', ''?v=1'', ''#/tutorial''), (''/picorules-docs/'', [], [])],
              route := Landing\<rparr>)"
proof -
  have "\<not> startsWith (pathname browser0) ''//''"
    by (simp add: browser0_def startsWith_def)
  with navigate_landing [of browser0] show ?thesis
    by (simp add: browser0_def current_def)
qed

text \<open>
  The operation does not replace the current history entry: from a document the
  entry of that document stays in the history, behind the new one. From a path that
  starts with \<open>//\<close> and names another host the call throws and changes nothing.
\<close>

theorem navigate_landing_counterexample:
  "\<not> landingByReplace browser0 (navigate Landing browser0)
   \<and> \<not> landingByReplace browser1 (navigate Landing browser1)"
  by (simp add: landingByReplace_def navigate_def pushState_def current_def replacesHistory_def
      startsWith_def browser0_def browser1_def)

section \<open>Search filter\<close>

lemma includes_str_iff: "includes_str s q \<longleftrightarrow> (\<exists>ps ss. s = ps @ q @ ss)"
proof (induction s)
  case Nil
  then show ?case by auto
next
  case (Cons c cs)
  show ?case
  proof
    assume "includes_str (c # cs) q"
    then consider "prefix q (c # cs)" | "includes_str cs q"
      by auto
    then show "\<exists>ps ss. c # cs = ps @ q @ ss"
    proof cases
      case 1
      then obtain ss where "c # cs = q @ ss"
        by (auto simp: prefix_def)
      then have "c # cs = [] @ q @ ss"
        by simp
      then show ?thesis
        by blast
    next
      case 2
      with Cons.IH obtain ps ss where "cs = ps @ q @ ss"
        by auto
      then have "c # cs = (c # ps) @ q @ ss"
        by simp
      then show ?thesis
        by blast
    qed
  next
    assume "\<exists>ps ss. c # cs = ps @ q @ ss"
    then obtain ps ss where eq: "c # cs = ps @ q @ ss"
      by blast
    show "includes_str (c # cs) q"
    proof (cases ps)
      case Nil
      with eq have "prefix q (c # cs)"
        by (simp add: prefix_def)
      then show ?thesis
        by simp
    next
      case (Cons a ps')
      with eq have "cs = ps' @ q @ ss"
        by simp
      with Cons.IH have "includes_str cs q"
        by blast
      then show ?thesis
        by simp
    qed
  qed
qed

lemma includes_str_Nil: "includes_str s []"
  by (cases s) simp_all

lemma filteredDocs_empty_query: "filteredDocs ds [] = ds"
  by (simp add: filteredDocs_def trim_def toLowerCase_def)

lemma filteredDocs_subseq: "subseq (filteredDocs ds q) ds"
  by (simp add: filteredDocs_def Let_def)

lemma filteredDocs_member:
  "d \<in> set (filteredDocs ds q) \<longleftrightarrow>
     d \<in> set ds \<and> (toLowerCase (trim q) = []
        \<or> includes_str (toLowerCase (title d)) (toLowerCase (trim q))
        \<or> includes_str (toLowerCase (description d)) (toLowerCase (trim q)))"
  by (auto simp: filteredDocs_def Let_def)


text \<open>
  Claim C5, as the code has it. Every record of \<open>filteredDocs\<close> contains the trimmed
  query, compared without regard to case, in its title or its description; the result
  is a subsequence of the registry in registry order; the empty query gives the whole
  registry; and a record of the registry is in the result exactly when the trimmed,
  lower-cased query is empty or occurs in the lower-cased title or description.
\<close>

theorem filteredDocs_correct:
  "(\<forall>d\<in>set (filteredDocs ds q). containsQuery (trim q) d)
   \<and> subseq (filteredDocs ds q) ds
   \<and> filteredDocs ds [] = ds
   \<and> filteredDocs ds q = filter (\<lambda>d. toLowerCase (trim q) = []
        \<or> includes_str (toLowerCase (title d)) (toLowerCase (trim q))
        \<or> includes_str (toLowerCase (description d)) (toLowerCase (trim q))) ds
   \<and> (includes_str s p \<longleftrightarrow> (\<exists>before after. s = before @ p @ after))"
proof (intro conjI ballI)
  fix d assume "d \<in> set (filteredDocs ds q)"
  then show "containsQuery (trim q) d"
    by (auto simp: filteredDocs_member containsQuery_def containsCI_def includes_str_Nil)
next
  show "subseq (filteredDocs ds q) ds"
    by (rule filteredDocs_subseq)
next
  show "filteredDocs ds [] = ds"
    by (rule filteredDocs_empty_query)
next
  show "filteredDocs ds q = filter (\<lambda>d. toLowerCase (trim q) = []
        \<or> includes_str (toLowerCase (title d)) (toLowerCase (trim q))
        \<or> includes_str (toLowerCase (description d)) (toLowerCase (trim q))) ds"
    by (simp add: filteredDocs_def Let_def)
next
  show "includes_str s p \<longleftrightarrow> (\<exists>before after. s = before @ p @ after)"
    by (rule includes_str_iff)
qed

theorem filteredDocs_correct_witness:
  "map id' (filteredDocs docs0 '' Tutorial'') = [''tutorial'']
   \<and> list_all (containsQuery (trim '' Tutorial'')) (filteredDocs docs0 '' Tutorial'')
   \<and> subseq (filteredDocs docs0 '' Tutorial'') docs0"
proof -
  have "map id' (filteredDocs docs0 '' Tutorial'') = [''tutorial'']"
    by code_simp
  with filteredDocs_correct [of docs0 "'' Tutorial''"]
  show ?thesis
    by (simp add: list_all_iff)
qed

text \<open>
  The query \<open>'' tutorial''\<close>, with a leading blank, selects the tutorial, whose title
  and description do not contain the query as it was typed.
\<close>

theorem filteredDocs_correct_counterexample:
  "\<not> list_all (containsQuery '' tutorial'') (filteredDocs docs0 '' tutorial'')"
  by code_simp

section \<open>Selection repair\<close>

lemma stillVisible_iff: "list_ex (\<lambda>doc. id' doc = i) fd \<longleftrightarrow> i \<in> id' ` set fd"
  by (auto simp: list_ex_iff)

lemma selectionEffect_cases:
  "selectionEffect ds s =
     (case filteredDocs ds (query s) of
        [] \<Rightarrow> Inr s
      | d # rest \<Rightarrow>
          if selectedDocId s \<in> id' ` set (d # rest) then Inr s
          else Inr (s\<lparr>selectedDocId := id' d\<rparr>))"
  by (simp add: selectionEffect_def Let_def stillVisible_iff getProp_def at_index_def
      split: list.splits)

lemma settle_cases:
  "settle ds s =
     (case filteredDocs ds (query s) of
        [] \<Rightarrow> Inr s
      | d # rest \<Rightarrow>
          if selectedDocId s \<in> id' ` set (d # rest) then Inr s
          else Inr (s\<lparr>selectedDocId := id' d\<rparr>))"
proof (cases "filteredDocs ds (query s)")
  case Nil
  then have "selectionEffect ds s = Inr s"
    by (simp add: selectionEffect_cases)
  with Nil show ?thesis
    by (subst settle.simps) simp
next
  case (Cons d rest)
  show ?thesis
  proof (cases "selectedDocId s \<in> id' ` set (d # rest)")
    case True
    with Cons have "selectionEffect ds s = Inr s"
      by (simp add: selectionEffect_cases)
    with Cons True show ?thesis
      by (subst settle.simps) simp
  next
    case False
    let ?s' = "s\<lparr>selectedDocId := id' d\<rparr>"
    from Cons False have first: "selectionEffect ds s = Inr ?s'"
      by (simp add: selectionEffect_cases)
    from False have changed: "selectedDocId ?s' \<noteq> selectedDocId s"
      by auto
    from Cons have "selectionEffect ds ?s' = Inr ?s'"
      by (simp add: selectionEffect_cases)
    then have "settle ds ?s' = Inr ?s'"
      by (subst settle.simps) simp
    with first changed have "settle ds s = Inr ?s'"
      by (subst settle.simps) simp
    with Cons False show ?thesis
      by simp
  qed
qed

lemma settle_frame:
  "\<exists>i. settle ds s = Inr (s\<lparr>selectedDocId := i\<rparr>)"
proof (cases "filteredDocs ds (query s)")
  case Nil
  then have "settle ds s = Inr (s\<lparr>selectedDocId := selectedDocId s\<rparr>)"
    by (simp add: settle_cases)
  then show ?thesis ..
next
  case (Cons d rest)
  then have "settle ds s = Inr (s\<lparr>selectedDocId := (if selectedDocId s \<in> id' ` set (d # rest)
      then selectedDocId s else id' d)\<rparr>)"
    by (simp add: settle_cases)
  then show ?thesis ..
qed

text \<open>
  Claim C6. \<open>setQuery\<close> always completes. When the filtered list is not empty and does
  not hold the selected id, the first filtered record becomes the selection; when it
  holds the selected id, and when it is empty, the selection stays as it was.
\<close>

theorem selection_repair:
  "\<exists>s'. setQuery ds q s = Inr s' \<and> query s' = q
     \<and> (filteredDocs ds q \<noteq> [] \<and> selectedDocId s \<notin> id' ` set (filteredDocs ds q)
          \<longrightarrow> selectedDocId s' = id' (filteredDocs ds q ! 0))
     \<and> (selectedDocId s \<in> id' ` set (filteredDocs ds q) \<longrightarrow> selectedDocId s' = selectedDocId s)
     \<and> (filteredDocs ds q = [] \<longrightarrow> selectedDocId s' = selectedDocId s)"
proof (cases "filteredDocs ds q")
  case Nil
  then have "setQuery ds q s = Inr (s\<lparr>query := q\<rparr>)"
    by (simp add: setQuery_def settle_cases)
  with Nil show ?thesis
    by simp
next
  case (Cons d rest)
  show ?thesis
  proof (cases "selectedDocId s \<in> id' ` set (d # rest)")
    case True
    with Cons have "setQuery ds q s = Inr (s\<lparr>query := q\<rparr>)"
      by (simp add: setQuery_def settle_cases)
    with Cons True show ?thesis
      by simp
  next
    case False
    with Cons have "setQuery ds q s = Inr (s\<lparr>query := q, selectedDocId := id' d\<rparr>)"
      by (simp add: setQuery_def settle_cases)
    with Cons False show ?thesis
      by simp
  qed
qed

theorem selection_repair_witness:
  "filteredDocs docs0 ''reference'' \<noteq> []
   \<and> selectedDocId app0 \<notin> id' ` set (filteredDocs docs0 ''reference'')
   \<and> (\<exists>s'. setQuery docs0 ''reference'' app0 = Inr s' \<and> selectedDocId s' = ''language-reference'')
   \<and> filteredDocs docs0 ''zzz-no-match'' = []
   \<and> (\<exists>s'. setQuery docs0 ''zzz-no-match'' app0 = Inr s' \<and> selectedDocId s' = ''introduction'')"
proof -
  have a: "map id' (filteredDocs docs0 ''reference'') = [''language-reference'', ''functions-reference'']"
    by code_simp
  have a1: "filteredDocs docs0 ''reference'' \<noteq> []"
    using a by auto
  have "set (map id' (filteredDocs docs0 ''reference'')) = {''language-reference'', ''functions-reference''}"
    by (simp only: a) simp
  then have a2: "selectedDocId app0 \<notin> id' ` set (filteredDocs docs0 ''reference'')"
    by (simp add: app0_def)
  have "id' (filteredDocs docs0 ''reference'' ! 0) = map id' (filteredDocs docs0 ''reference'') ! 0"
    using a1 by simp
  then have a3: "id' (filteredDocs docs0 ''reference'' ! 0) = ''language-reference''"
    by (simp only: a) simp
  have b: "filteredDocs docs0 ''zzz-no-match'' = []"
    by code_simp
  have c: "selectedDocId app0 = ''introduction''"
    by (simp add: app0_def)
  from selection_repair [of docs0 "''reference''" app0] a1 a2 a3
  have r1: "\<exists>s'. setQuery docs0 ''reference'' app0 = Inr s' \<and> selectedDocId s' = ''language-reference''"
    by metis
  from selection_repair [of docs0 "''zzz-no-match''" app0] b c
  have r2: "\<exists>s'. setQuery docs0 ''zzz-no-match'' app0 = Inr s' \<and> selectedDocId s' = ''introduction''"
    by metis
  from a1 a2 r1 b r2 show ?thesis
    by blast
qed

section \<open>Lookup by id\<close>

lemma distinct_docs: "distinct (map id' (docs raw))"
  by (simp add: docs_def)

lemma findById_unique:
  assumes "distinct (map id' ds)" and "r \<in> set ds"
  shows "findById ds (id' r) = Some r"
proof -
  from assms(2) have "id' r \<in> ids ds"
    by (simp add: ids_def)
  then obtain d where d: "findById ds (id' r) = Some d"
    by (auto dest: ids_findById)
  then have "id' d = id' r" and "d \<in> set ds"
    by (auto dest: findById_Some)
  with assms have "d = r"
    by (auto simp: distinct_map dest: inj_onD)
  with d show ?thesis
    by simp
qed

lemma activeDoc_absent:
  "i \<notin> ids ds \<Longrightarrow> activeDoc ds (s\<lparr>selectedDocId := i\<rparr>) = at_index ds 0"
  by (simp add: activeDoc_def findById_None [symmetric])

text \<open>
  Claim C7. With unique ids, looking up the id of a record of the registry returns
  that record; looking up a string that is no id of the registry returns absent. With
  an absent selection the active document is the first record of the registry, and a
  fragment with an absent id resolves to the landing route. The ids of the registry
  of the program are unique.
\<close>

theorem findById_lookup:
  "(distinct (map id' ds) \<and> r \<in> set ds \<longrightarrow> findById ds (id' r) = Some r)
   \<and> (i \<notin> ids ds \<longrightarrow>
         findById ds i = None
       \<and> (ds \<noteq> [] \<longrightarrow> activeDoc ds (s\<lparr>selectedDocId := i\<rparr>) = Some (ds ! 0))
       \<and> fst (parseHash ds (b\<lparr>hash := ''#/'' @ i\<rparr>)) = Landing)
   \<and> distinct (map id' (docs raw))"
proof (intro conjI impI)
  assume "distinct (map id' ds) \<and> r \<in> set ds"
  then show "findById ds (id' r) = Some r"
    by (simp add: findById_unique)
next
  assume "i \<notin> ids ds"
  then show "findById ds i = None"
    by (simp add: findById_None)
next
  assume "i \<notin> ids ds" and "ds \<noteq> []"
  then show "activeDoc ds (s\<lparr>selectedDocId := i\<rparr>) = Some (ds ! 0)"
    by (simp add: activeDoc_absent at_index_def)
next
  assume "i \<notin> ids ds"
  then show "fst (parseHash ds (b\<lparr>hash := ''#/'' @ i\<rparr>)) = Landing"
    using parseHash_canonical_invalid [of i ds b] by simp
next
  show "distinct (map id' (docs raw))"
    by (rule distinct_docs)
qed

theorem findById_lookup_witness:
  "distinct (map id' docs0) \<and> docs0 ! 3 \<in> set docs0
   \<and> findById docs0 ''eadv-model'' = Some (docs0 ! 3)
   \<and> ''eadv'' \<notin> ids docs0 \<and> findById docs0 ''eadv'' = None
   \<and> docs0 \<noteq> [] \<and> activeDoc docs0 (app0\<lparr>selectedDocId := ''eadv''\<rparr>) = Some (docs0 ! 0)
   \<and> fst (parseHash docs0 (browser0\<lparr>hash := ''#/eadv''\<rparr>)) = Landing"
proof -
  have d: "distinct (map id' docs0)"
    by (simp add: docs0_def distinct_docs)
  have m: "docs0 ! 3 \<in> set docs0" and n: "docs0 \<noteq> []" and e: "id' (docs0 ! 3) = ''eadv-model''"
    by (simp_all add: docs0_def docs_def)
  have a: "''eadv'' \<notin> ids docs0"
    by (simp add: docs0_def ids_docs)
  from findById_lookup [of docs0 "docs0 ! 3" "''eadv''" app0 browser0 "\<lambda>path. []"] d m n e a
  show ?thesis
    by simp
qed

section \<open>Theme\<close>

lemma settle_theme:
  assumes "settle ds s = Inr s'"
  shows "theme s' = theme s \<and> localStorage s' = localStorage s \<and> query s' = query s"
proof -
  from settle_frame [of ds s] obtain i where "settle ds s = Inr (s\<lparr>selectedDocId := i\<rparr>)" ..
  with assms have "s' = s\<lparr>selectedDocId := i\<rparr>"
    by simp
  then show ?thesis
    by simp
qed

lemma themeEffect_stored: "localStorage (themeEffect s) ''theme'' = Some (theme (themeEffect s))"
  by (simp add: themeEffect_def)

lemma toggleTheme_stored: "localStorage (toggleTheme s) ''theme'' = Some (theme (toggleTheme s))"
  unfolding toggleTheme_def by (rule themeEffect_stored)

lemma toggleTheme_theme:
  "theme (toggleTheme s) = (if theme s = ''light'' then ''dark'' else ''light'')"
  by (simp add: toggleTheme_def themeEffect_def)

lemma act_stored:
  assumes "localStorage s ''theme'' = Some (theme s)" and "act ds s a = Inr s'"
  shows "localStorage s' ''theme'' = Some (theme s')"
proof (cases a)
  case (SetQuery q)
  with assms(2) have "settle ds (s\<lparr>query := q\<rparr>) = Inr s'"
    by (simp add: setQuery_def)
  from settle_theme [OF this] assms(1) show ?thesis
    by simp
next
  case (Select i)
  with assms(2) have "settle ds (s\<lparr>selectedDocId := i\<rparr>) = Inr s'"
    by simp
  from settle_theme [OF this] assms(1) show ?thesis
    by simp
next
  case ToggleTheme
  with assms(2) have "s' = toggleTheme s"
    by simp
  then show ?thesis
    by (simp add: toggleTheme_stored)
qed

lemma runApp_stored:
  "localStorage s ''theme'' = Some (theme s) \<Longrightarrow> runApp ds s as = Inr s'
     \<Longrightarrow> localStorage s' ''theme'' = Some (theme s')"
proof (induction as arbitrary: s)
  case Nil
  then show ?case by simp
next
  case (Cons a as)
  from Cons.prems(2) obtain t where t: "act ds s a = Inr t" and rest: "runApp ds t as = Inr s'"
    by (auto split: sum.splits)
  from act_stored [OF Cons.prems(1) t] have "localStorage t ''theme'' = Some (theme t)" .
  from Cons.IH [OF this rest] show ?case .
qed

lemma startup_nonempty:
  assumes "ds \<noteq> []"
  shows "startup ds store prefersDark classes =
           Inr (themeEffect \<lparr>selectedDocId = id' (ds ! 0), query = [],
                  theme = initTheme store prefersDark, localStorage = store,
                  rootClasses = classes\<rparr>)"
proof -
  let ?s = "\<lparr>selectedDocId = id' (ds ! 0), query = [], theme = initTheme store prefersDark,
             localStorage = store, rootClasses = classes\<rparr>"
  from assms obtain d rest where ds: "ds = d # rest"
    by (cases ds) auto
  have "filteredDocs ds (query ?s) = d # rest"
    by (simp add: filteredDocs_empty_query ds)
  then have "settle ds ?s = Inr ?s"
    by (simp add: settle_cases ds)
  moreover have "getProp id' (at_index ds 0) = Inr (id' (ds ! 0))"
    by (simp add: getProp_def at_index_def ds)
  ultimately show ?thesis
    by (simp add: startup_def)
qed

lemma startup_empty: "startup [] store prefersDark classes = Inl TypeError"
  by (simp add: startup_def getProp_def at_index_def)

lemma startup_stored:
  assumes "startup ds store prefersDark classes = Inr s"
  shows "localStorage s ''theme'' = Some (theme s)"
proof (cases "ds = []")
  case True
  with assms show ?thesis
    by (simp add: startup_empty)
next
  case False
  from startup_nonempty [OF False, of store prefersDark classes] assms
  show ?thesis
    by (simp add: themeEffect_def)
qed

text \<open>
  Claim C8. From the light and from the dark theme, two calls of \<open>toggleTheme\<close> give
  the theme back. After every call of \<open>toggleTheme\<close>, and in every state reached from
  the start of the application by any actions of the user, the value stored under the
  key \<open>theme\<close> is the theme in memory.
\<close>

theorem theme_round_trip:
  "(theme s \<in> {''light'', ''dark''} \<longrightarrow> theme (toggleTheme (toggleTheme s)) = theme s)
   \<and> localStorage (toggleTheme s) ''theme'' = Some (theme (toggleTheme s))
   \<and> localStorage (toggleTheme (toggleTheme s)) ''theme'' = Some (theme (toggleTheme (toggleTheme s)))
   \<and> (startup ds store prefersDark classes = Inr s0 \<and> runApp ds s0 as = Inr s1
        \<longrightarrow> localStorage s1 ''theme'' = Some (theme s1))"
proof (intro conjI impI)
  assume "theme s \<in> {''light'', ''dark''}"
  then show "theme (toggleTheme (toggleTheme s)) = theme s"
    by (auto simp: toggleTheme_theme)
next
  show "localStorage (toggleTheme s) ''theme'' = Some (theme (toggleTheme s))"
    by (rule toggleTheme_stored)
next
  show "localStorage (toggleTheme (toggleTheme s)) ''theme'' = Some (theme (toggleTheme (toggleTheme s)))"
    by (rule toggleTheme_stored)
next
  assume "startup ds store prefersDark classes = Inr s0 \<and> runApp ds s0 as = Inr s1"
  then have "startup ds store prefersDark classes = Inr s0" and run: "runApp ds s0 as = Inr s1"
    by simp_all
  from this(1) have "localStorage s0 ''theme'' = Some (theme s0)"
    by (rule startup_stored)
  from runApp_stored [OF this run] show "localStorage s1 ''theme'' = Some (theme s1)" .
qed

theorem theme_round_trip_witness:
  "theme app0 \<in> {''light'', ''dark''}
   \<and> theme (toggleTheme app0) = ''dark''
   \<and> theme (toggleTheme (toggleTheme app0)) = ''light''
   \<and> localStorage (toggleTheme app0) ''theme'' = Some ''dark''
   \<and> (\<exists>s0 s1. startup docs0 Map.empty True {} = Inr s0 \<and> theme s0 = ''dark''
         \<and> runApp docs0 s0 [ToggleTheme] = Inr s1 \<and> theme s1 = ''light''
         \<and> localStorage s1 ''theme'' = Some ''light'')"
proof -
  define s0 where "s0 = themeEffect \<lparr>selectedDocId = id' (docs0 ! 0), query = [],
      theme = initTheme Map.empty True, localStorage = Map.empty, rootClasses = {}\<rparr>"
  have ne: "docs0 \<noteq> []"
    by (simp add: docs0_def docs_def)
  have st: "startup docs0 Map.empty True {} = Inr s0"
    unfolding s0_def by (rule startup_nonempty [OF ne])
  have t0: "theme s0 = ''dark''"
    by (simp add: s0_def themeEffect_def initTheme_def)
  have run: "runApp docs0 s0 [ToggleTheme] = Inr (toggleTheme s0)"
    by simp
  have t1: "theme (toggleTheme s0) = ''light''"
    by (simp add: toggleTheme_theme t0)
  have l: "theme app0 = ''light''"
    by (simp add: app0_def)
  from theme_round_trip [of app0 docs0 Map.empty True "{}" s0 "[ToggleTheme]" "toggleTheme s0"]
    st run t1 l
  have "theme (toggleTheme (toggleTheme app0)) = ''light''"
    and "localStorage (toggleTheme app0) ''theme'' = Some (theme (toggleTheme app0))"
    and "localStorage (toggleTheme s0) ''theme'' = Some ''light''"
    by simp_all
  with st run t0 t1 l show ?thesis
    by (auto simp: toggleTheme_theme)
qed

text \<open>
  Claim C9, as the code has it. A stored theme that is not the empty string becomes
  the first theme as it is, whatever it says; the preference of the system, and
  \<open>light\<close> without it, decide when nothing is stored and when the empty string is
  stored.
\<close>

theorem initTheme_stored:
  "(store ''theme'' = Some t \<and> t \<noteq> [] \<longrightarrow> initTheme store prefersDark = t)
   \<and> (store ''theme'' = None \<or> store ''theme'' = Some []
        \<longrightarrow> initTheme store prefersDark = (if prefersDark then ''dark'' else ''light''))
   \<and> (ds \<noteq> [] \<longrightarrow> (\<exists>s. startup ds store prefersDark classes = Inr s
         \<and> theme s = initTheme store prefersDark))"
proof (intro conjI impI)
  assume "store ''theme'' = Some t \<and> t \<noteq> []"
  then show "initTheme store prefersDark = t"
    by (simp add: initTheme_def)
next
  assume "store ''theme'' = None \<or> store ''theme'' = Some []"
  then show "initTheme store prefersDark = (if prefersDark then ''dark'' else ''light'')"
    by (auto simp: initTheme_def)
next
  assume "ds \<noteq> []"
  from startup_nonempty [OF this, of store prefersDark classes]
  show "\<exists>s. startup ds store prefersDark classes = Inr s \<and> theme s = initTheme store prefersDark"
    by (simp add: themeEffect_def)
qed

theorem initTheme_stored_witness:
  "[''theme'' \<mapsto> ''solarized''] ''theme'' = Some ''solarized''
   \<and> initTheme [''theme'' \<mapsto> ''solarized''] True = ''solarized''
   \<and> Map.empty ''theme'' = (None :: string option)
   \<and> initTheme Map.empty True = ''dark'' \<and> initTheme Map.empty False = ''light''
   \<and> docs0 \<noteq> []
   \<and> (\<exists>s. startup docs0 [''theme'' \<mapsto> ''solarized''] True {} = Inr s \<and> theme s = ''solarized'')"
proof -
  have ne: "docs0 \<noteq> []"
    by (simp add: docs0_def docs_def)
  from initTheme_stored [of "[''theme'' \<mapsto> ''solarized'']" "''solarized''" True docs0 "{}"]
    initTheme_stored [of Map.empty "[]" True docs0 "{}"]
    initTheme_stored [of Map.empty "[]" False docs0 "{}"] ne
  show ?thesis
    by auto
qed

text \<open>
  With the empty string stored under \<open>theme\<close> a stored value exists, and the first
  theme still follows the preference of the system.
\<close>

theorem initTheme_stored_counterexample:
  "\<not> (store0 ''theme'' \<noteq> None \<longrightarrow> initTheme store0 True = initTheme store0 False)"
  by (simp add: store0_def initTheme_def)

section \<open>Index safety\<close>

lemma selectionEffect_total: "\<exists>s'. selectionEffect ds s = Inr s'"
  by (simp add: selectionEffect_cases split: list.splits)

lemma act_total: "\<exists>s'. act ds s a = Inr s'"
proof (cases a)
  case (SetQuery q)
  with settle_frame [of ds "s\<lparr>query := q\<rparr>"] show ?thesis
    by (auto simp: setQuery_def)
next
  case (Select i)
  with settle_frame [of ds "s\<lparr>selectedDocId := i\<rparr>"] show ?thesis
    by auto
next
  case ToggleTheme
  then show ?thesis
    by simp
qed

lemma runApp_total: "\<exists>s'. runApp ds s as = Inr s'"
proof (induction as arbitrary: s)
  case Nil
  show ?case by simp
next
  case (Cons a as)
  from act_total [of ds s a] obtain t where t: "act ds s a = Inr t" ..
  from Cons.IH [of t] obtain s' where "runApp ds t as = Inr s'" ..
  with t have "runApp ds s (a # as) = Inr s'"
    by simp
  then show ?case ..
qed

lemma activeDoc_defined: "ds \<noteq> [] \<Longrightarrow> activeDoc ds s \<noteq> None"
  by (simp add: activeDoc_def at_index_def split: option.splits)

text \<open>
  Claim C10. With a registry that is not empty, the start of the application returns
  a state whose selection is the id of the first record, every sequence of actions
  after it returns a state, and the active document of that state is defined; an
  absent selection makes the first record the active document. The selection effect
  never fails, and leaves the state as it is when the filtered list is empty, for
  any registry. With the empty registry the start fails with a TypeError.
\<close>

theorem index_safety:
  "(ds \<noteq> [] \<longrightarrow>
      (\<exists>s0. startup ds store prefersDark classes = Inr s0 \<and> selectedDocId s0 = id' (ds ! 0)
          \<and> (\<forall>as. \<exists>s1. runApp ds s0 as = Inr s1 \<and> activeDoc ds s1 \<noteq> None))
      \<and> (i \<notin> ids ds \<longrightarrow> activeDoc ds (s\<lparr>selectedDocId := i\<rparr>) = Some (ds ! 0)))
   \<and> (\<exists>s'. selectionEffect ds s = Inr s')
   \<and> (filteredDocs ds (query s) = [] \<longrightarrow> selectionEffect ds s = Inr s)
   \<and> startup [] store prefersDark classes = Inl TypeError"
proof (intro conjI impI)
  assume ne: "ds \<noteq> []"
  let ?s0 = "themeEffect \<lparr>selectedDocId = id' (ds ! 0), query = [],
      theme = initTheme store prefersDark, localStorage = store, rootClasses = classes\<rparr>"
  have "startup ds store prefersDark classes = Inr ?s0"
    by (rule startup_nonempty [OF ne])
  moreover have "selectedDocId ?s0 = id' (ds ! 0)"
    by (simp add: themeEffect_def)
  moreover have "\<forall>as. \<exists>s1. runApp ds ?s0 as = Inr s1 \<and> activeDoc ds s1 \<noteq> None"
  proof
    fix as
    from runApp_total [of ds ?s0 as] obtain s1 where "runApp ds ?s0 as = Inr s1" ..
    moreover from ne have "activeDoc ds s1 \<noteq> None"
      by (rule activeDoc_defined)
    ultimately show "\<exists>s1. runApp ds ?s0 as = Inr s1 \<and> activeDoc ds s1 \<noteq> None"
      by blast
  qed
  ultimately show "\<exists>s0. startup ds store prefersDark classes = Inr s0 \<and> selectedDocId s0 = id' (ds ! 0)
          \<and> (\<forall>as. \<exists>s1. runApp ds s0 as = Inr s1 \<and> activeDoc ds s1 \<noteq> None)"
    by blast
next
  assume "ds \<noteq> []" and "i \<notin> ids ds"
  then show "activeDoc ds (s\<lparr>selectedDocId := i\<rparr>) = Some (ds ! 0)"
    by (simp add: activeDoc_absent at_index_def)
next
  show "\<exists>s'. selectionEffect ds s = Inr s'"
    by (rule selectionEffect_total)
next
  assume "filteredDocs ds (query s) = []"
  then show "selectionEffect ds s = Inr s"
    by (simp add: selectionEffect_cases)
next
  show "startup [] store prefersDark classes = Inl TypeError"
    by (rule startup_empty)
qed

theorem index_safety_witness:
  "docs0 \<noteq> []
   \<and> (\<exists>s0. startup docs0 Map.empty False {} = Inr s0 \<and> selectedDocId s0 = ''introduction''
        \<and> (\<exists>s1. runApp docs0 s0 [SetQuery ''zzz'', Select ''nope'', ToggleTheme] = Inr s1
              \<and> activeDoc docs0 s1 \<noteq> None))
   \<and> ''nope'' \<notin> ids docs0
   \<and> activeDoc docs0 (app0\<lparr>selectedDocId := ''nope''\<rparr>) = Some (docs0 ! 0)
   \<and> startup [] Map.empty False {} = Inl TypeError"
proof -
  have ne: "docs0 \<noteq> []" and first: "id' (docs0 ! 0) = ''introduction''"
    by (simp_all add: docs0_def docs_def)
  have a: "''nope'' \<notin> ids docs0"
    by (simp add: docs0_def ids_docs)
  from index_safety [of docs0 Map.empty False "{}" "''nope''" app0] ne a
  obtain s0 where "startup docs0 Map.empty False {} = Inr s0"
    and "selectedDocId s0 = id' (docs0 ! 0)"
    and all: "\<forall>as. \<exists>s1. runApp docs0 s0 as = Inr s1 \<and> activeDoc docs0 s1 \<noteq> None"
    and "activeDoc docs0 (app0\<lparr>selectedDocId := ''nope''\<rparr>) = Some (docs0 ! 0)"
    and "startup [] Map.empty False {} = Inl TypeError"
    by blast
  moreover from all
  have "\<exists>s1. runApp docs0 s0 [SetQuery ''zzz'', Select ''nope'', ToggleTheme] = Inr s1
           \<and> activeDoc docs0 s1 \<noteq> None" ..
  ultimately show ?thesis
    using ne a first by auto
qed

end
